theory Spec2Isabelle
  imports Main "HOL-Library.Multiset"
begin

section \<open>useEntityRecord: the resolution status of one entity record\<close>

text \<open>
  Modelled from the spec: the four constants \<open>IDLE\<close>, \<open>SUCCESS\<close>, \<open>ERROR\<close>, \<open>RESOLVING\<close>
  that \<open>use-entity-record.js\<close> imports from \<open>./constants\<close> (a file that is not part of the
  sources at hand). The docstring of the hook lists them as the values of \<open>status\<close>
  ("one of: IDLE, RESOLVING, SUCCESS, ERROR"); they are taken as four distinct values.
\<close>

datatype status = IDLE | RESOLVING | SUCCESS | ERROR

text \<open>
  What \<open>getEntityRecord\<close> hands back through \<open>useQuerySelect\<close>: the record data (absent
  while it is not in the store, written \<open>None\<close>; an entity record is an object, hence truthy
  when present) and the two resolution flags.
\<close>

record 'a recordResponse =
  data :: "'a option"
  isResolving :: bool
  hasResolved :: bool

text \<open>The object the hook returns. The field \<open>record\<close> of the source is \<open>record'\<close> here.\<close>

record 'a entityRecord =
  status :: status
  record' :: "'a option"
  editedRecord :: "'a option"
  hasEdits :: bool
  isMissing :: bool
  isResolving :: bool
  hasResolved :: bool

text \<open>
  The hook, as a function of what the three store queries answer: the response of
  \<open>getEntityRecord\<close>, the data of \<open>getEditedEntityRecord\<close> and the data of
  \<open>hasEditsForEntityRecord\<close>. The first \<open>let\<close> is the object built inside the
  \<open>useQuerySelect\<close> callback (the spread response with \<open>isMissing\<close> added), the nested
  \<open>if\<close> is the status ladder of the source, branch by branch.
\<close>

definition useEntityRecord ::
  "'a recordResponse \<Rightarrow> 'a option \<Rightarrow> bool \<Rightarrow> 'a entityRecord" where
  "useEntityRecord recordResponse edited edits =
     (let missing = (recordResponse.hasResolved recordResponse \<and> data recordResponse = None);
          st = (if recordResponse.isResolving recordResponse then RESOLVING
                else if recordResponse.hasResolved recordResponse then
                  (if data recordResponse \<noteq> None then SUCCESS else ERROR)
                else IDLE)
      in \<lparr> status = st,
           record' = data recordResponse,
           editedRecord = edited,
           hasEdits = edits,
           isMissing = missing,
           isResolving = recordResponse.isResolving recordResponse,
           hasResolved = recordResponse.hasResolved recordResponse \<rparr>)"

section \<open>JavaScript values of the \<open>comments/perPage\<close> context\<close>

text \<open>
  The values the block context \<open>comments/perPage\<close> is looked at with: absent
  (\<open>undefined\<close>), \<open>null\<close>, a boolean, an integral number, and the empty string. Numbers
  with a fraction, \<open>NaN\<close> and non-empty strings are outside this type.
\<close>

datatype jsval = Undefined | Null | Boolean bool | Number int | EmptyString

text \<open>JavaScript's ToBoolean on these values.\<close>

fun truthy :: "jsval \<Rightarrow> bool" where
  "truthy Undefined = False"
| "truthy Null = False"
| "truthy (Boolean b) = b"
| "truthy (Number n) = (n \<noteq> 0)"
| "truthy EmptyString = False"

text \<open>The operator \<open>a || b\<close>: the left operand when it is truthy, else the right one.\<close>

definition js_or :: "jsval \<Rightarrow> jsval \<Rightarrow> jsval" where
  "js_or a b = (if truthy a then a else b)"

text \<open>
  ToIntegerOrInfinity, which \<open>Array.prototype.slice\<close> applies to its arguments:
  \<open>undefined\<close> becomes NaN and then 0, \<open>null\<close> and the empty string become 0, \<open>true\<close>
  becomes 1.
\<close>

fun toIntegerOrInfinity :: "jsval \<Rightarrow> int" where
  "toIntegerOrInfinity Undefined = 0"
| "toIntegerOrInfinity Null = 0"
| "toIntegerOrInfinity (Boolean b) = (if b then 1 else 0)"
| "toIntegerOrInfinity (Number n) = n"
| "toIntegerOrInfinity EmptyString = 0"

text \<open>
  \<open>xs.slice(start, end)\<close>, step by step as the language defines it: a negative index counts
  from the end of the array, both indices are clamped to the array, an absent \<open>end\<close> is the
  length, and the elements are shared with \<open>xs\<close>, not copied.
\<close>

definition slice :: "'a list \<Rightarrow> jsval \<Rightarrow> jsval \<Rightarrow> 'a list" where
  "slice xs start fin =
     (let len = int (length xs);
          relativeStart = toIntegerOrInfinity start;
          k = (if relativeStart < 0 then max (len + relativeStart) 0 else min relativeStart len);
          relativeEnd = (if fin = Undefined then len else toIntegerOrInfinity fin);
          final = (if relativeEnd < 0 then max (len + relativeEnd) 0 else min relativeEnd len);
          count = max (final - k) 0
      in take (nat count) (drop (nat k) xs))"

text \<open>
  The two statements of \<open>CommentTemplateEdit\<close> that bound the roots: \<open>perPage = perPage || 50\<close>
  and \<open>convertToTree( rawComments ).slice( 0, perPage )\<close>, for the array \<open>tree\<close> that
  \<open>convertToTree\<close> returned.
\<close>

definition cappedRoots :: "'a list \<Rightarrow> jsval \<Rightarrow> 'a list" where
  "cappedRoots tree perPage = slice tree (Number 0) (js_or perPage (Number 50))"

section \<open>The comment forest and its renderer\<close>

text \<open>
  A comment object as the renderer reads it: \<open>commentId\<close> and \<open>children\<close>. The renderer
  compares comments with \<open>===\<close>, that is by object identity, so every object carries its
  identity \<open>ref\<close>; two nodes are the same object exactly when their \<open>ref\<close> is the same.
\<close>

type_synonym objref = nat

datatype Comment = Comment (ref: objref) (commentId: nat) (children: "Comment list")

text \<open>
  What one \<open>li\<close> shows for its comment: the inner blocks of the template (the editable form)
  or the \<open>MemoizedCommentTemplatePreview\<close>. An \<open>li\<close> element records the comment it was
  rendered for, the form, and the nested \<open>ol\<close> when the comment has children (\<open>null\<close>
  otherwise).
\<close>

datatype form = InnerBlocks | Preview

datatype element = Li objref form "element list option"

text \<open>\<open>comments[ 0 ]\<close>: the first element, \<open>undefined\<close> on the empty array.\<close>

definition firstOf :: "Comment list \<Rightarrow> objref option" where
  "firstOf comments = (case comments of [] \<Rightarrow> None | c # _ \<Rightarrow> Some (ref c))"

text \<open>\<open>activeComment || firstComment\<close> on object references: an object is truthy.\<close>

definition js_or_ref :: "objref option \<Rightarrow> objref option \<Rightarrow> objref option" where
  "js_or_ref a b = (case a of Some x \<Rightarrow> Some x | None \<Rightarrow> b)"

text \<open>
  The two components, mutually recursive as in the source. \<open>CommentTemplateInnerBlocks\<close>
  renders the inner blocks when \<open>comment === ( activeComment || firstComment )\<close> and the
  preview otherwise, then the nested list when \<open>comment.children.length > 0\<close>.
  \<open>CommentsList\<close> maps over its array and hands every item \<open>comments[ 0 ]\<close> of that same
  array as \<open>firstComment\<close>.
\<close>

fun CommentTemplateInnerBlocks :: "Comment \<Rightarrow> objref option \<Rightarrow> objref option \<Rightarrow> element"
  and CommentsList :: "Comment list \<Rightarrow> objref option \<Rightarrow> element list" where
  "CommentTemplateInnerBlocks (Comment r i cs) activeComment firstComment =
     Li r (if Some r = js_or_ref activeComment firstComment then InnerBlocks else Preview)
          (if length cs > 0 then Some (CommentsList cs activeComment) else None)"
| "CommentsList comments activeComment =
     map (\<lambda>comment. CommentTemplateInnerBlocks comment activeComment (firstOf comments)) comments"

text \<open>
  \<open>handleOnClick\<close> of a preview (also its \<open>onKeyPress\<close>): \<open>setActiveComment( comment )\<close>.
  The function returns the new value of the state \<open>activeComment\<close>.
\<close>

definition handleOnClick :: "Comment \<Rightarrow> objref option \<Rightarrow> objref option" where
  "handleOnClick comment activeComment = Some (ref comment)"

text \<open>Observations: the nodes of a forest in document order, and the form of every \<open>li\<close>.\<close>

fun nodesOf :: "Comment \<Rightarrow> Comment list" where
  "nodesOf (Comment r i cs) = Comment r i cs # concat (map nodesOf cs)"

definition forestNodes :: "Comment list \<Rightarrow> Comment list" where
  "forestNodes forest = concat (map nodesOf forest)"

definition forestRefs :: "Comment list \<Rightarrow> objref list" where
  "forestRefs forest = map ref (forestNodes forest)"

fun formsOf :: "element \<Rightarrow> (objref \<times> form) list" where
  "formsOf (Li r f nested) =
     (r, f) # (case nested of None \<Rightarrow> [] | Some es \<Rightarrow> concat (map formsOf es))"

definition renderedForms :: "element list \<Rightarrow> (objref \<times> form) list" where
  "renderedForms es = concat (map formsOf es)"

definition activeRefs :: "element list \<Rightarrow> objref list" where
  "activeRefs es = map fst (filter (\<lambda>p. snd p = InnerBlocks) (renderedForms es))"

definition formAt :: "element list \<Rightarrow> objref \<Rightarrow> form option" where
  "formAt es r = map_of (renderedForms es) r"

text \<open>The pair an \<open>li\<close> contributes when the comment \<open>a\<close> is the selected one.\<close>

definition selected :: "objref \<Rightarrow> objref \<Rightarrow> objref \<times> form" where
  "selected a r = (r, if r = a then InnerBlocks else Preview)"

section \<open>The tree builder\<close>

text \<open>
  Modelled from the spec: the function \<open>convertToTree\<close> that \<open>CommentTemplateEdit\<close>
  imports from \<open>./util\<close>, a file that is not part of the sources at hand. The model follows
  the algorithm of the specification (section 4.1) and its edge cases:
  \<^item> every record is indexed by its identifier, one wrapper per identifier, each wrapper
    starting with no children (a later record with the same identifier replaces the
    earlier one in the index);
  \<^item> then, in input order, the wrapper of a record is appended to the children of the
    wrapper found for its \<open>parentId\<close>, or to the root list when there is none;
  \<^item> a record whose \<open>parentId\<close> is its own identifier is treated as "parent not found";
  \<^item> empty or absent input yields the empty forest.

  Wrappers are shared objects that the second pass mutates, so they live in an explicit
  store: the table maps an identifier to its wrapper, and the root list and the children
  lists hold identifiers, which stand for references to wrappers.
\<close>

record CommentRecord =
  id' :: nat
  parentId :: nat

record TreeNode =
  wrapped :: CommentRecord
  childIds :: "nat list"

record Tree =
  roots :: "nat list"
  table :: "nat \<rightharpoonup> TreeNode"

fun indexRecords ::
  "CommentRecord list \<Rightarrow> (nat \<rightharpoonup> TreeNode) \<Rightarrow> (nat \<rightharpoonup> TreeNode)" where
  "indexRecords [] tbl = tbl"
| "indexRecords (r # rs) tbl =
     indexRecords rs (tbl(id' r \<mapsto> \<lparr> wrapped = r, childIds = [] \<rparr>))"

definition attach :: "CommentRecord \<Rightarrow> Tree \<Rightarrow> Tree" where
  "attach r tree =
     (if parentId r = id' r then tree\<lparr> roots := roots tree @ [id' r] \<rparr>
      else (case table tree (parentId r) of
              Some parent \<Rightarrow>
                tree\<lparr> table := (table tree)(parentId r \<mapsto>
                                   parent\<lparr> childIds := childIds parent @ [id' r] \<rparr>) \<rparr>
            | None \<Rightarrow> tree\<lparr> roots := roots tree @ [id' r] \<rparr>))"

fun attachRecords :: "CommentRecord list \<Rightarrow> Tree \<Rightarrow> Tree" where
  "attachRecords [] tree = tree"
| "attachRecords (r # rs) tree = attachRecords rs (attach r tree)"

definition convertToTree :: "CommentRecord list option \<Rightarrow> Tree" where
  "convertToTree data' =
     (case data' of
        None \<Rightarrow> \<lparr> roots = [], table = Map.empty \<rparr>
      | Some records \<Rightarrow>
          attachRecords records \<lparr> roots = [], table = indexRecords records Map.empty \<rparr>)"

text \<open>The children of the wrapper stored under \<open>k\<close>, and none when there is no wrapper.\<close>

definition childrenOf :: "Tree \<Rightarrow> nat \<Rightarrow> nat list" where
  "childrenOf tree k = (case table tree k of None \<Rightarrow> [] | Some node \<Rightarrow> childIds node)"

text \<open>
  A record's parent is resolvable in a sequence when its \<open>parentId\<close> is the identifier of
  some record of the sequence other than the record's own identifier.
\<close>

definition resolvable :: "CommentRecord list \<Rightarrow> CommentRecord \<Rightarrow> bool" where
  "resolvable records r = (parentId r \<noteq> id' r \<and> parentId r \<in> set (map id' records))"

text \<open>
  The nodes of the output forest: the wrappers that a walk from the root list meets by
  following children lists.
\<close>

inductive reach :: "Tree \<Rightarrow> nat \<Rightarrow> bool" for tree where
  root: "k \<in> set (roots tree) \<Longrightarrow> reach tree k"
| child: "reach tree p \<Longrightarrow> k \<in> set (childrenOf tree p) \<Longrightarrow> reach tree k"

text \<open>
  Reading the wrapper stored under \<open>k\<close> and everything below it as a comment object of the
  renderer, whose identity is the wrapper's. The walk has fuel, one unit per level: it
  answers \<open>None\<close> when the fuel runs out, as a walk caught in a cycle of wrappers does at
  every amount of fuel.
\<close>

fun subtree :: "nat \<Rightarrow> (nat \<rightharpoonup> TreeNode) \<Rightarrow> nat \<Rightarrow> Comment option" where
  "subtree 0 tbl k = None"
| "subtree (Suc fuel) tbl k =
     (case tbl k of
        None \<Rightarrow> None
      | Some node \<Rightarrow>
          (case those (map (subtree fuel tbl) (childIds node)) of
             None \<Rightarrow> None
           | Some cs \<Rightarrow> Some (Comment k (id' (wrapped node)) cs)))"

section \<open>The block: CommentTemplateEdit\<close>

text \<open>
  What the block returns: the paragraph with the \<open>Spinner\<close>, the paragraph "No results
  found.", or the \<open>CommentsList\<close>.
\<close>

datatype rendering = Spinner | NoResults | OrderedList "element list"

text \<open>
  The block, as a function of what \<open>useSelect\<close> answers for the raw comments (\<open>None\<close> while
  \<open>getEntityRecords\<close> has nothing yet), of the \<open>comments/perPage\<close> context and of the state
  \<open>activeComment\<close>. As in the source, the tree is built and capped before \<open>rawComments\<close> is
  tested. The first argument is the fuel of the walk that reads the capped roots as
  comment objects for \<open>CommentsList\<close>; the result is \<open>None\<close> when it does not suffice.
\<close>

definition CommentTemplateEdit ::
  "nat \<Rightarrow> CommentRecord list option \<Rightarrow> jsval \<Rightarrow> objref option \<Rightarrow> rendering option" where
  "CommentTemplateEdit fuel rawComments perPage activeComment =
     (let tree = convertToTree rawComments;
          comments = cappedRoots (roots tree) perPage
      in if rawComments = None then Some Spinner
         else if length comments = 0 then Some NoResults
         else (case those (map (subtree fuel (table tree)) comments) of
                 None \<Rightarrow> None
               | Some cs \<Rightarrow> Some (OrderedList (CommentsList cs activeComment))))"

section \<open>Properties of useEntityRecord\<close>

text \<open>
  Claim C8. For every combination of the flags the status is one of the four values and is
  decided by the flags alone: RESOLVING when \<open>isResolving\<close> holds; otherwise SUCCESS when
  \<open>hasResolved\<close> holds and the data is present; otherwise ERROR when \<open>hasResolved\<close> holds
  and the data is absent; otherwise IDLE.
\<close>

theorem useEntityRecord_status:
  "status (useEntityRecord \<lparr> data = d, isResolving = r, hasResolved = h \<rparr> edited edits) =
     (if r then RESOLVING
      else if h \<and> d \<noteq> None then SUCCESS
      else if h \<and> d = None then ERROR
      else IDLE)
   \<and> status (useEntityRecord \<lparr> data = d, isResolving = r, hasResolved = h \<rparr> edited edits)
       \<in> {IDLE, RESOLVING, SUCCESS, ERROR}
   \<and> status (useEntityRecord \<lparr> data = d, isResolving = r, hasResolved = h \<rparr> edited edits) =
     status (useEntityRecord \<lparr> data = d, isResolving = r, hasResolved = h \<rparr> edited' edits')"
  by (auto simp add: useEntityRecord_def)

text \<open>
  Claim C9. In the returned object \<open>isMissing\<close> is true exactly when \<open>hasResolved\<close> is
  true and the record data is absent; hence, when \<open>isResolving\<close> is false, \<open>isMissing\<close>
  being true implies that the status is ERROR.
\<close>

theorem useEntityRecord_isMissing:
  "isMissing (useEntityRecord \<lparr> data = d, isResolving = r, hasResolved = h \<rparr> edited edits) =
     (h \<and> d = None)
   \<and> (\<not> r \<longrightarrow>
        isMissing (useEntityRecord \<lparr> data = d, isResolving = r, hasResolved = h \<rparr> edited edits) \<longrightarrow>
        status (useEntityRecord \<lparr> data = d, isResolving = r, hasResolved = h \<rparr> edited edits) = ERROR)"
  by (auto simp add: useEntityRecord_def)

theorem useEntityRecord_isMissing_witness:
  "isMissing (useEntityRecord \<lparr> data = (None :: nat option), isResolving = False,
       hasResolved = True \<rparr> None False)
   \<and> status (useEntityRecord \<lparr> data = (None :: nat option), isResolving = False,
       hasResolved = True \<rparr> None False) = ERROR"
  using useEntityRecord_isMissing [of "None :: nat option" False True None False]
  by simp

section \<open>Properties of the bounded slice\<close>

lemma slice_from_0: "0 \<le> n \<Longrightarrow> slice xs (Number 0) (Number n) = take (nat n) xs"
  by (auto simp: slice_def Let_def min_def max_def)

lemma cappedRoots_falsy: "\<not> truthy v \<Longrightarrow> cappedRoots xs v = take 50 xs"
  by (simp add: cappedRoots_def js_or_def slice_from_0)

lemma cappedRoots_positive: "0 < n \<Longrightarrow> cappedRoots xs (Number n) = take (nat n) xs"
  by (simp add: cappedRoots_def js_or_def slice_from_0)

text \<open>
  Claim C3, as amended. For every forest and every positive limit \<open>n\<close>, the cap of the
  block (\<open>perPage || 50\<close>, then \<open>slice( 0, perPage )\<close>) keeps exactly
  \<open>min n (number of roots)\<close> roots, namely the first \<open>n\<close> roots in order, and every retained
  root is the root it was, with its whole subtree.
\<close>

theorem cap_roots:
  fixes forest :: "Comment list"
  shows "0 < n \<Longrightarrow>
     length (cappedRoots forest (Number n)) = min (nat n) (length forest)
   \<and> cappedRoots forest (Number n) = take (nat n) forest
   \<and> (\<forall>i < length (cappedRoots forest (Number n)).
         cappedRoots forest (Number n) ! i = forest ! i
       \<and> nodesOf (cappedRoots forest (Number n) ! i) = nodesOf (forest ! i))"
  by (simp add: cappedRoots_positive)

theorem cap_roots_witness:
  "(0::int) < 2
   \<and> length (cappedRoots [Comment 1 10 [Comment 2 20 []], Comment 3 30 [], Comment 4 40 []]
         (Number 2)) = 2
   \<and> cappedRoots [Comment 1 10 [Comment 2 20 []], Comment 3 30 [], Comment 4 40 []]
         (Number 2) = [Comment 1 10 [Comment 2 20 []], Comment 3 30 []]"
  using cap_roots [of 2 "[Comment 1 10 [Comment 2 20 []], Comment 3 30 [], Comment 4 40 []]"]
  by simp

text \<open>
  Claim C3 as it was stated, for every non-negative limit, fails at the limit 0: the block
  replaces a \<open>perPage\<close> of 0 by 50 before it slices, so both roots of a forest of two roots
  are kept where \<open>min 0 2 = 0\<close> roots were claimed.
\<close>

theorem cap_roots_zero_counterexample:
  "length (cappedRoots [Comment 1 10 [Comment 2 20 []], Comment 3 30 []] (Number 0)) = 2
   \<and> min (nat 0) (length [Comment 1 10 [Comment 2 20 []], Comment 3 30 []]) = 0
   \<and> cappedRoots [Comment 1 10 [Comment 2 20 []], Comment 3 30 []] (Number 0) \<noteq>
       take (nat 0) [Comment 1 10 [Comment 2 20 []], Comment 3 30 []]"
  by (simp add: cappedRoots_falsy)

text \<open>
  Claim C7. When the \<open>comments/perPage\<close> context is absent, \<open>perPage || 50\<close> is 50 and the
  roots exposed for rendering are the first 50 roots: at most 50, and all of them when the
  forest has fewer.
\<close>

theorem default_perPage:
  "js_or Undefined (Number 50) = Number 50
   \<and> cappedRoots forest Undefined = take 50 forest
   \<and> length (cappedRoots forest Undefined) = min 50 (length forest)
   \<and> length (cappedRoots forest Undefined) \<le> 50"
  by (simp add: cappedRoots_falsy js_or_def)






section \<open>Properties of the renderer\<close>

lemma forms_explicit:
  "formsOf (CommentTemplateInnerBlocks c (Some a) fc) = map (selected a) (map ref (nodesOf c))"
  "concat (map formsOf (CommentsList cs (Some a))) =
     map (selected a) (map ref (concat (map nodesOf cs)))"
proof (induction c "Some a" fc and cs "Some a"
    rule: CommentTemplateInnerBlocks_CommentsList.induct)
  case (1 r i cs firstComment)
  show ?case
  proof (cases "cs = []")
    case True
    then show ?thesis by (simp add: js_or_ref_def selected_def)
  next
    case False
    then have "0 < length cs" by simp
    from 1 [OF this] show ?thesis using False
      by (simp add: js_or_ref_def selected_def)
  qed
next
  case (2 comments)
  have "map (\<lambda>c. formsOf (CommentTemplateInnerBlocks c (Some a) (firstOf comments))) comments =
        map (\<lambda>c. map (selected a) (map ref (nodesOf c))) comments"
    by (rule map_cong [OF refl]) (rule 2)
  then have "concat (map (\<lambda>c. formsOf (CommentTemplateInnerBlocks c (Some a) (firstOf comments)))
           comments) =
        concat (map (\<lambda>c. map (selected a) (map ref (nodesOf c))) comments)"
    by (rule arg_cong)
  also have "\<dots> = map (selected a) (map ref (concat (map nodesOf comments)))"
    by (simp add: map_concat comp_def)
  finally show ?case by (simp add: comp_def)
qed

lemma renderedForms_explicit:
  "renderedForms (CommentsList forest (Some a)) = map (selected a) (forestRefs forest)"
  by (simp only: renderedForms_def forestRefs_def forestNodes_def forms_explicit)

lemma activeRefs_explicit:
  "activeRefs (CommentsList forest (Some a)) = filter (\<lambda>r. r = a) (forestRefs forest)"
  unfolding activeRefs_def renderedForms_explicit
  by (induction "forestRefs forest" arbitrary: forest) (auto simp: selected_def filter_map comp_def)

lemma filter_eq_distinct:
  "distinct xs \<Longrightarrow> filter (\<lambda>r. r = a) xs = (if a \<in> set xs then [a] else [])"
  by (induction xs) auto

lemma formAt_explicit:
  "formAt (CommentsList forest (Some a)) r =
     (if r \<in> set (forestRefs forest) then Some (if r = a then InnerBlocks else Preview) else None)"
  unfolding formAt_def renderedForms_explicit
  by (induction "forestRefs forest") (auto simp: selected_def map_of_map_restrict restrict_map_def)

lemma member_forestRefs: "b \<in> set (forestNodes forest) \<Longrightarrow> ref b \<in> set (forestRefs forest)"
  by (simp add: forestRefs_def)

text \<open>
  Claim C1, as amended. For every forest whose nodes are distinct objects and every
  explicitly selected \<open>activeComment\<close>: the nodes rendered in the editable form are exactly
  the nodes of the forest that are the selected object, so exactly one when the selection is
  a node of the forest and none when it is not, and every other node renders as a preview.
  When \<open>a\<close> is selected and the activation fires on another node \<open>b\<close> of the forest,
  afterwards \<open>b\<close> is the only node in the editable form, \<open>a\<close> renders as a preview and the
  form of every other node is unchanged. (The rendering with no selection made is the
  subject of claim C2 and is not part of this statement.)
\<close>

theorem explicit_selection_single_active:
  assumes "distinct (forestRefs forest)"
  shows "activeRefs (CommentsList forest (Some a)) =
           (if a \<in> set (forestRefs forest) then [a] else [])
       \<and> (\<forall>r \<in> set (forestRefs forest).
             formAt (CommentsList forest (Some a)) r =
               Some (if r = a then InnerBlocks else Preview))
       \<and> (b \<in> set (forestNodes forest) \<and> ref b \<noteq> a \<longrightarrow>
             activeRefs (CommentsList forest (handleOnClick b (Some a))) = [ref b]
           \<and> formAt (CommentsList forest (handleOnClick b (Some a))) (ref b) = Some InnerBlocks
           \<and> (a \<in> set (forestRefs forest) \<longrightarrow>
                 formAt (CommentsList forest (handleOnClick b (Some a))) a = Some Preview)
           \<and> (\<forall>r. r \<noteq> a \<and> r \<noteq> ref b \<longrightarrow>
                 formAt (CommentsList forest (handleOnClick b (Some a))) r =
                 formAt (CommentsList forest (Some a)) r))"
proof -
  have before: "activeRefs (CommentsList forest (Some a)) =
      (if a \<in> set (forestRefs forest) then [a] else [])"
    using assms by (simp only: activeRefs_explicit filter_eq_distinct)
  have forms: "\<forall>r \<in> set (forestRefs forest).
      formAt (CommentsList forest (Some a)) r = Some (if r = a then InnerBlocks else Preview)"
    by (simp add: formAt_explicit del: CommentsList.simps)
  have step: "activeRefs (CommentsList forest (handleOnClick b (Some a))) = [ref b]
      \<and> formAt (CommentsList forest (handleOnClick b (Some a))) (ref b) = Some InnerBlocks
      \<and> (a \<in> set (forestRefs forest) \<longrightarrow>
            formAt (CommentsList forest (handleOnClick b (Some a))) a = Some Preview)
      \<and> (\<forall>r. r \<noteq> a \<and> r \<noteq> ref b \<longrightarrow>
            formAt (CommentsList forest (handleOnClick b (Some a))) r =
            formAt (CommentsList forest (Some a)) r)"
    if "b \<in> set (forestNodes forest)" and "ref b \<noteq> a"
  proof -
    have member: "ref b \<in> set (forestRefs forest)"
      using that(1) by (rule member_forestRefs)
    have after: "activeRefs (CommentsList forest (handleOnClick b (Some a))) = [ref b]"
      using assms member
      by (simp only: handleOnClick_def activeRefs_explicit filter_eq_distinct if_True)
    show ?thesis
      using after member that(2)
      by (simp add: formAt_explicit handleOnClick_def del: CommentsList.simps)
  qed
  show ?thesis
    using before forms step by blast
qed

theorem explicit_selection_single_active_witness:
  "distinct (forestRefs [Comment 1 10 [Comment 2 20 []], Comment 3 30 []])
   \<and> Comment 3 30 [] \<in> set (forestNodes [Comment 1 10 [Comment 2 20 []], Comment 3 30 []])
   \<and> ref (Comment 3 30 []) \<noteq> 1
   \<and> activeRefs (CommentsList [Comment 1 10 [Comment 2 20 []], Comment 3 30 []] (Some 1)) = [1]
   \<and> activeRefs (CommentsList [Comment 1 10 [Comment 2 20 []], Comment 3 30 []]
        (handleOnClick (Comment 3 30 []) (Some 1))) = [3]
   \<and> formAt (CommentsList [Comment 1 10 [Comment 2 20 []], Comment 3 30 []]
        (handleOnClick (Comment 3 30 []) (Some 1))) 1 = Some Preview
   \<and> formAt (CommentsList [Comment 1 10 [Comment 2 20 []], Comment 3 30 []]
        (handleOnClick (Comment 3 30 []) (Some 1))) 2 =
     formAt (CommentsList [Comment 1 10 [Comment 2 20 []], Comment 3 30 []] (Some 1)) 2"
proof -
  let ?forest = "[Comment 1 10 [Comment 2 20 []], Comment 3 30 []]"
  have refs: "forestRefs ?forest = [1, 2, 3]"
    by (simp add: forestRefs_def forestNodes_def)
  have h1: "distinct (forestRefs ?forest)"
    unfolding refs by simp
  have h2: "Comment 3 30 [] \<in> set (forestNodes ?forest)"
    by (simp add: forestNodes_def)
  have h3: "ref (Comment 3 30 []) \<noteq> 1"
    by simp
  have h4: "(1::nat) \<in> set (forestRefs ?forest)" "(2::nat) \<noteq> 1" "2 \<noteq> ref (Comment 3 30 [])"
    unfolding refs by simp_all
  from explicit_selection_single_active [OF h1, of 1 "Comment 3 30 []"] h1 h2 h3 h4
  show ?thesis by (simp del: CommentsList.simps)
qed

text \<open>
  Claim C1 as it was stated fails on both sides of "exactly one": a selection that is not a
  node of the forest (the object of an earlier forest, say) leaves no node in the editable
  form, and with no selection made a root and its first child are both in the editable form.
\<close>

theorem single_active_counterexample:
  "activeRefs (CommentsList [Comment 1 10 []] (Some 7)) = []
   \<and> activeRefs (CommentsList [Comment 1 10 [Comment 2 20 []]] None) = [1, 2]"
  by (simp add: activeRefs_def renderedForms_def js_or_ref_def firstOf_def)

text \<open>
  Claim C2 says that with \<open>activeComment\<close> unset only the first root renders in the editable
  form. The renderer does otherwise on nested lists: every \<open>CommentsList\<close> passes the first
  comment of its own array as \<open>firstComment\<close>, so the first child of every list is in the
  editable form as well. Here the forest is root 1 with children 2 (itself with child 3)
  and 4, and root 5; the nodes 1, 2 and 3 render their inner blocks.
\<close>

theorem default_selection_nested_lists:
  "activeRefs (CommentsList
      [Comment 1 10 [Comment 2 20 [Comment 3 30 []], Comment 4 40 []], Comment 5 50 []] None)
     = [1, 2, 3]"
  by (simp add: activeRefs_def renderedForms_def js_or_ref_def firstOf_def)

section \<open>Properties of the tree builder\<close>

lemma dom_indexRecords: "dom (indexRecords rs tbl) = dom tbl \<union> id' ` set rs"
  by (induction rs arbitrary: tbl) auto

lemma indexRecords_leaves:
  "(\<And>k node. tbl k = Some node \<Longrightarrow> childIds node = []) \<Longrightarrow>
   indexRecords rs tbl k = Some node \<Longrightarrow> childIds node = []"
proof (induction rs arbitrary: tbl)
  case Nil
  then show ?case by simp
next
  case (Cons r rs)
  show ?case
  proof (rule Cons.IH [where tbl = "tbl(id' r \<mapsto> \<lparr> wrapped = r, childIds = [] \<rparr>)"])
    fix j n
    assume "(tbl(id' r \<mapsto> \<lparr> wrapped = r, childIds = [] \<rparr>)) j = Some n"
    then show "childIds n = []"
      using Cons.prems(1) by (cases "j = id' r") auto
  next
    show "indexRecords rs (tbl(id' r \<mapsto> \<lparr>wrapped = r, childIds = []\<rparr>)) k = Some node"
      using Cons.prems(2) by simp
  qed
qed

lemma dom_attach: "dom (table (attach r tree)) = dom (table tree)"
  by (auto simp: attach_def split: option.splits if_splits)

lemma roots_attach:
  "roots (attach r tree) =
     roots tree @ (if parentId r \<noteq> id' r \<and> parentId r \<in> dom (table tree) then [] else [id' r])"
  by (auto simp: attach_def split: option.splits)

lemma childrenOf_attach:
  "childrenOf (attach r tree) k =
     childrenOf tree k @
       (if parentId r \<noteq> id' r \<and> parentId r \<in> dom (table tree) \<and> parentId r = k
        then [id' r] else [])"
  by (auto simp: attach_def childrenOf_def split: option.splits)

lemma roots_attachRecords:
  "roots (attachRecords rs tree) =
     roots tree @
       map id' (filter (\<lambda>r. \<not> (parentId r \<noteq> id' r \<and> parentId r \<in> dom (table tree))) rs)"
proof (induction rs arbitrary: tree)
  case Nil
  then show ?case by simp
next
  case (Cons r rs)
  show ?case
    by (simp only: attachRecords.simps Cons.IH dom_attach roots_attach) simp
qed

lemma childrenOf_attachRecords:
  "childrenOf (attachRecords rs tree) k =
     childrenOf tree k @
       map id' (filter (\<lambda>r. parentId r \<noteq> id' r \<and> parentId r \<in> dom (table tree)
                             \<and> parentId r = k) rs)"
proof (induction rs arbitrary: tree)
  case Nil
  then show ?case by simp
next
  case (Cons r rs)
  show ?case
    by (simp only: attachRecords.simps Cons.IH dom_attach childrenOf_attach) auto
qed

lemma roots_convertToTree:
  "roots (convertToTree (Some rs)) = map id' (filter (\<lambda>r. \<not> resolvable rs r) rs)"
  by (simp add: convertToTree_def roots_attachRecords dom_indexRecords resolvable_def)

lemma childrenOf_convertToTree:
  "childrenOf (convertToTree (Some rs)) k =
     map id' (filter (\<lambda>r. resolvable rs r \<and> parentId r = k) rs)"
proof -
  have "childrenOf \<lparr> roots = [], table = indexRecords rs Map.empty \<rparr> k = []"
    using indexRecords_leaves [of Map.empty rs k]
    by (auto simp: childrenOf_def split: option.splits)
  then show ?thesis
    by (simp add: convertToTree_def childrenOf_attachRecords dom_indexRecords resolvable_def)
qed

lemma mset_filter_disjoint:
  "(\<And>x. x \<in> set xs \<Longrightarrow> \<not> (P x \<and> Q x)) \<Longrightarrow>
   mset (filter P xs) + mset (filter Q xs) = mset (filter (\<lambda>x. P x \<or> Q x) xs)"
  by (induction xs) auto

lemma mset_concat_by_key:
  "distinct ks \<Longrightarrow>
   mset (concat (map (\<lambda>k. map f (filter (\<lambda>x. P x \<and> key x = k) xs)) ks)) =
   mset (map f (filter (\<lambda>x. P x \<and> key x \<in> set ks) xs))"
proof (induction ks)
  case Nil
  then show ?case by simp
next
  case (Cons k ks)
  then have fresh: "k \<notin> set ks" and rest: "distinct ks" by simp_all
  have "mset (filter (\<lambda>x. P x \<and> key x = k) xs) + mset (filter (\<lambda>x. P x \<and> key x \<in> set ks) xs) =
        mset (filter (\<lambda>x. (P x \<and> key x = k) \<or> (P x \<and> key x \<in> set ks)) xs)"
    using fresh by (intro mset_filter_disjoint) auto
  also have "(\<lambda>x. (P x \<and> key x = k) \<or> (P x \<and> key x \<in> set ks)) =
             (\<lambda>x. P x \<and> key x \<in> set (k # ks))"
    by auto
  finally have split: "mset (filter (\<lambda>x. P x \<and> key x = k) xs) +
        mset (filter (\<lambda>x. P x \<and> key x \<in> set ks) xs) =
        mset (filter (\<lambda>x. P x \<and> key x \<in> set (k # ks)) xs)" .
  have "mset (concat (map (\<lambda>k. map f (filter (\<lambda>x. P x \<and> key x = k) xs)) (k # ks))) =
        image_mset f (mset (filter (\<lambda>x. P x \<and> key x = k) xs)) +
        image_mset f (mset (filter (\<lambda>x. P x \<and> key x \<in> set ks) xs))"
    using Cons.IH [OF rest] by simp
  also have "\<dots> = image_mset f (mset (filter (\<lambda>x. P x \<and> key x \<in> set (k # ks)) xs))"
    by (simp only: image_mset_union [symmetric] split)
  finally show ?case by simp
qed

lemma nodes_partition:
  assumes "distinct (map id' rs)"
  shows "mset (roots (convertToTree (Some rs))) +
         mset (concat (map (childrenOf (convertToTree (Some rs))) (map id' rs))) =
         mset (map id' rs)"
proof -
  have "mset (concat (map (childrenOf (convertToTree (Some rs))) (map id' rs))) =
        mset (concat (map (\<lambda>k. map id' (filter (\<lambda>r. resolvable rs r \<and> parentId r = k) rs))
                (map id' rs)))"
  proof -
    have "childrenOf (convertToTree (Some rs)) =
          (\<lambda>k. map id' (filter (\<lambda>r. resolvable rs r \<and> parentId r = k) rs))"
      by (rule ext) (rule childrenOf_convertToTree)
    then show ?thesis by simp
  qed
  also have "\<dots> = mset (map id' (filter (\<lambda>r. resolvable rs r \<and> parentId r \<in> set (map id' rs)) rs))"
    using assms by (rule mset_concat_by_key)
  also have "(\<lambda>r. resolvable rs r \<and> parentId r \<in> set (map id' rs)) = resolvable rs"
    by (auto simp: resolvable_def)
  finally have kids: "mset (concat (map (childrenOf (convertToTree (Some rs))) (map id' rs))) =
        mset (map id' (filter (resolvable rs) rs))" .
  have "mset (filter (\<lambda>r. \<not> resolvable rs r) rs) + mset (filter (resolvable rs) rs) = mset rs"
    by (induction rs) auto
  then have "mset (map id' (filter (\<lambda>r. \<not> resolvable rs r) rs)) +
        mset (map id' (filter (resolvable rs) rs)) = mset (map id' rs)"
    by (simp only: mset_map image_mset_union [symmetric])
  then show ?thesis
    by (simp only: roots_convertToTree kids)
qed

lemma input_order:
  assumes "distinct (map f xs)"
  shows "map f (filter P xs) = filter (\<lambda>i. i \<in> set (map f (filter P xs))) (map f xs)"
proof -
  have inj: "inj_on f (set xs)"
    using assms by (simp add: distinct_map)
  have "filter ((\<lambda>i. i \<in> set (map f (filter P xs))) \<circ> f) xs = filter P xs"
  proof (rule filter_cong [OF refl])
    fix x
    assume "x \<in> set xs"
    then show "((\<lambda>i. i \<in> set (map f (filter P xs))) \<circ> f) x = P x"
      using inj by (auto simp: inj_on_def)
  qed
  then show ?thesis by (simp only: filter_map)
qed

lemma reach_known: "reach (convertToTree (Some rs)) k \<Longrightarrow> k \<in> set (map id' rs)"
  by (induction rule: reach.induct) (auto simp: roots_convertToTree childrenOf_convertToTree)

lemma reach_all:
  fixes rank :: "nat \<Rightarrow> nat"
  assumes rank: "\<And>r. r \<in> set rs \<Longrightarrow> resolvable rs r \<Longrightarrow> rank (parentId r) < rank (id' r)"
  shows "r \<in> set rs \<Longrightarrow> reach (convertToTree (Some rs)) (id' r)"
proof (induction "rank (id' r)" arbitrary: r rule: less_induct)
  case less
  show ?case
  proof (cases "resolvable rs r")
    case False
    with less.prems have "id' r \<in> set (roots (convertToTree (Some rs)))"
      by (auto simp: roots_convertToTree)
    then show ?thesis by (rule reach.root)
  next
    case True
    then obtain p where p: "p \<in> set rs" "id' p = parentId r"
      by (auto simp: resolvable_def)
    have "rank (id' p) < rank (id' r)"
      using rank [OF less.prems True] p by simp
    then have up: "reach (convertToTree (Some rs)) (id' p)"
      using p(1) by (rule less.hyps)
    have "id' r \<in> set (childrenOf (convertToTree (Some rs)) (id' p))"
      using less.prems True p by (auto simp: childrenOf_convertToTree)
    with up show ?thesis by (rule reach.child)
  qed
qed

lemma not_own_child: "k \<notin> set (childrenOf (convertToTree (Some rs)) k)"
  by (auto simp: childrenOf_convertToTree resolvable_def)

lemma reach_needs_root: "reach tree k \<Longrightarrow> roots tree \<noteq> []"
  by (induction rule: reach.induct) auto

lemma member_filtered:
  "distinct (map f xs) \<Longrightarrow> x \<in> set xs \<Longrightarrow> (f x \<in> set (map f (filter P xs))) = P x"
  by (auto simp: distinct_map inj_on_def)

text \<open>
  Claim C4. For every input sequence, a record whose \<open>parentId\<close> is the identifier of no
  record of the sequence, or is the record's own identifier, is a root of the output
  forest, and no wrapper is made a child of itself. The builder is two structural
  recursions over the input and has no failing branch: it returns a forest for every
  input.
\<close>

theorem unresolved_parent_is_root:
  "r \<in> set rs \<Longrightarrow> parentId r \<notin> set (map id' rs) \<or> parentId r = id' r \<Longrightarrow>
     id' r \<in> set (roots (convertToTree (Some rs)))
   \<and> id' r \<notin> set (childrenOf (convertToTree (Some rs)) (id' r))"
  by (auto simp: roots_convertToTree not_own_child resolvable_def)

theorem unresolved_parent_is_root_witness:
  "\<lparr>id' = 5, parentId = 5\<rparr> \<in> set [\<lparr>id' = 1, parentId = 0\<rparr>, \<lparr>id' = 4, parentId = 99\<rparr>,
       \<lparr>id' = 5, parentId = 5\<rparr>, \<lparr>id' = 6, parentId = 5\<rparr>]
   \<and> parentId \<lparr>id' = 5, parentId = 5\<rparr> = id' \<lparr>id' = 5, parentId = 5\<rparr>
   \<and> 5 \<in> set (roots (convertToTree (Some [\<lparr>id' = 1, parentId = 0\<rparr>, \<lparr>id' = 4, parentId = 99\<rparr>,
       \<lparr>id' = 5, parentId = 5\<rparr>, \<lparr>id' = 6, parentId = 5\<rparr>])))
   \<and> 5 \<notin> set (childrenOf (convertToTree (Some [\<lparr>id' = 1, parentId = 0\<rparr>,
       \<lparr>id' = 4, parentId = 99\<rparr>, \<lparr>id' = 5, parentId = 5\<rparr>, \<lparr>id' = 6, parentId = 5\<rparr>])) 5)"
  using unresolved_parent_is_root [of "\<lparr>id' = 5, parentId = 5\<rparr>"
      "[\<lparr>id' = 1, parentId = 0\<rparr>, \<lparr>id' = 4, parentId = 99\<rparr>,
        \<lparr>id' = 5, parentId = 5\<rparr>, \<lparr>id' = 6, parentId = 5\<rparr>]"]
  by simp

text \<open>
  Claim C5, as amended. For every input sequence with distinct identifiers in which the
  resolvable parent links form no cycle (some rank decreases from every record to its
  resolvable parent): every record is a node of the output forest and the forest has no
  other node; every record occurs exactly once among the root list and the children
  lists; the children of a wrapper are exactly the records that name it as their
  resolvable parent; and the root list and every children list are in input order.
\<close>

theorem one_node_per_record:
  fixes rank :: "nat \<Rightarrow> nat"
  assumes "distinct (map id' rs)"
    and "\<forall>r \<in> set rs. resolvable rs r \<longrightarrow> rank (parentId r) < rank (id' r)"
  shows "(\<forall>r \<in> set rs. reach (convertToTree (Some rs)) (id' r))
       \<and> (\<forall>k. reach (convertToTree (Some rs)) k \<longrightarrow> k \<in> set (map id' rs))
       \<and> mset (roots (convertToTree (Some rs))) +
           mset (concat (map (childrenOf (convertToTree (Some rs))) (map id' rs))) =
           mset (map id' rs)
       \<and> (\<forall>r \<in> set rs. \<forall>k. (id' r \<in> set (childrenOf (convertToTree (Some rs)) k)) =
             (resolvable rs r \<and> parentId r = k))
       \<and> roots (convertToTree (Some rs)) =
           filter (\<lambda>i. i \<in> set (roots (convertToTree (Some rs)))) (map id' rs)
       \<and> (\<forall>k. childrenOf (convertToTree (Some rs)) k =
             filter (\<lambda>i. i \<in> set (childrenOf (convertToTree (Some rs)) k)) (map id' rs))"
proof -
  have none_lost: "\<forall>r \<in> set rs. reach (convertToTree (Some rs)) (id' r)"
    using assms(2) reach_all [of rs rank] by blast
  have none_added: "\<forall>k. reach (convertToTree (Some rs)) k \<longrightarrow> k \<in> set (map id' rs)"
    using reach_known by blast
  have once: "mset (roots (convertToTree (Some rs))) +
      mset (concat (map (childrenOf (convertToTree (Some rs))) (map id' rs))) = mset (map id' rs)"
    using assms(1) by (rule nodes_partition)
  have parent: "\<forall>r \<in> set rs. \<forall>k. (id' r \<in> set (childrenOf (convertToTree (Some rs)) k)) =
      (resolvable rs r \<and> parentId r = k)"
  proof (intro ballI allI)
    fix r k
    assume "r \<in> set rs"
    with assms(1) show "(id' r \<in> set (childrenOf (convertToTree (Some rs)) k)) =
        (resolvable rs r \<and> parentId r = k)"
      unfolding childrenOf_convertToTree by (rule member_filtered)
  qed
  have root_order: "roots (convertToTree (Some rs)) =
      filter (\<lambda>i. i \<in> set (roots (convertToTree (Some rs)))) (map id' rs)"
    unfolding roots_convertToTree using assms(1) by (rule input_order)
  have child_order: "\<forall>k. childrenOf (convertToTree (Some rs)) k =
      filter (\<lambda>i. i \<in> set (childrenOf (convertToTree (Some rs)) k)) (map id' rs)"
  proof (rule allI)
    fix k
    show "childrenOf (convertToTree (Some rs)) k =
        filter (\<lambda>i. i \<in> set (childrenOf (convertToTree (Some rs)) k)) (map id' rs)"
      unfolding childrenOf_convertToTree using assms(1) by (rule input_order)
  qed
  show ?thesis
    by (intro conjI none_lost none_added once parent root_order child_order)
qed

theorem one_node_per_record_witness:
  "distinct (map id' [\<lparr>id' = 1, parentId = 0\<rparr>, \<lparr>id' = 2, parentId = 1\<rparr>,
       \<lparr>id' = 3, parentId = 0\<rparr>, \<lparr>id' = 4, parentId = 99\<rparr>])
   \<and> reach (convertToTree (Some [\<lparr>id' = 1, parentId = 0\<rparr>, \<lparr>id' = 2, parentId = 1\<rparr>,
       \<lparr>id' = 3, parentId = 0\<rparr>, \<lparr>id' = 4, parentId = 99\<rparr>])) 2
   \<and> roots (convertToTree (Some [\<lparr>id' = 1, parentId = 0\<rparr>, \<lparr>id' = 2, parentId = 1\<rparr>,
       \<lparr>id' = 3, parentId = 0\<rparr>, \<lparr>id' = 4, parentId = 99\<rparr>])) = [1, 3, 4]
   \<and> childrenOf (convertToTree (Some [\<lparr>id' = 1, parentId = 0\<rparr>, \<lparr>id' = 2, parentId = 1\<rparr>,
       \<lparr>id' = 3, parentId = 0\<rparr>, \<lparr>id' = 4, parentId = 99\<rparr>])) 1 = [2]"
proof -
  let ?rs = "[\<lparr>id' = 1, parentId = 0\<rparr>, \<lparr>id' = 2, parentId = 1\<rparr>,
       \<lparr>id' = 3, parentId = 0\<rparr>, \<lparr>id' = 4, parentId = 99\<rparr>]"
  have h1: "distinct (map id' ?rs)"
    by simp
  have h2: "\<forall>r \<in> set ?rs. resolvable ?rs r \<longrightarrow> (\<lambda>k. k) (parentId r) < (\<lambda>k. k) (id' r)"
    by (simp add: resolvable_def)
  have member: "\<lparr>id' = 2, parentId = 1\<rparr> \<in> set ?rs"
    by simp
  from one_node_per_record [OF h1 h2] member
  have "reach (convertToTree (Some ?rs)) (id' \<lparr>id' = 2, parentId = 1\<rparr>)"
    by blast
  then have reached: "reach (convertToTree (Some ?rs)) 2"
    by simp
  have shape: "roots (convertToTree (Some ?rs)) = [1, 3, 4]"
    "childrenOf (convertToTree (Some ?rs)) 1 = [2]"
    by (simp_all add: roots_convertToTree childrenOf_convertToTree resolvable_def)
  show ?thesis
    by (intro conjI h1 reached shape)
qed

text \<open>
  Claim C5 as it was stated fails when parent links form a cycle: of two records with
  distinct identifiers that name each other as parent, each is appended to the children of
  the other, the root list stays empty, and neither record is a node of the forest.
\<close>

theorem cyclic_parents_counterexample:
  "distinct (map id' [\<lparr>id' = 1, parentId = 2\<rparr>, \<lparr>id' = 2, parentId = 1\<rparr>])
   \<and> roots (convertToTree (Some [\<lparr>id' = 1, parentId = 2\<rparr>, \<lparr>id' = 2, parentId = 1\<rparr>])) = []
   \<and> \<not> reach (convertToTree (Some [\<lparr>id' = 1, parentId = 2\<rparr>, \<lparr>id' = 2, parentId = 1\<rparr>])) 1
   \<and> \<not> reach (convertToTree (Some [\<lparr>id' = 1, parentId = 2\<rparr>, \<lparr>id' = 2, parentId = 1\<rparr>])) 2"
proof -
  have empty: "roots (convertToTree (Some [\<lparr>id' = 1, parentId = 2\<rparr>, \<lparr>id' = 2, parentId = 1\<rparr>])) = []"
    by (simp add: convertToTree_def attach_def)
  then show ?thesis
    using reach_needs_root by fastforce
qed

section \<open>Properties of the block\<close>

text \<open>
  Claim C6. The block tells absent input from empty input: while the raw comments are
  absent it renders the spinner; when they are present and the capped root list is empty
  it renders "No results found."; and the tree builder yields the empty forest on the
  empty sequence (and on absent input, which is what lets the block reach the spinner).
\<close>

theorem absent_and_empty_input:
  "CommentTemplateEdit fuel None perPage activeComment = Some Spinner
   \<and> (cappedRoots (roots (convertToTree (Some rs))) perPage = [] \<longrightarrow>
        CommentTemplateEdit fuel (Some rs) perPage activeComment = Some NoResults)
   \<and> CommentTemplateEdit fuel (Some []) perPage activeComment = Some NoResults
   \<and> roots (convertToTree (Some [])) = []
   \<and> table (convertToTree (Some [])) = Map.empty
   \<and> roots (convertToTree None) = []
   \<and> Spinner \<noteq> NoResults"
proof -
  have absent: "CommentTemplateEdit fuel None perPage activeComment = Some Spinner"
    by (simp add: CommentTemplateEdit_def Let_def)
  have capped: "cappedRoots (roots (convertToTree (Some rs))) perPage = [] \<longrightarrow>
      CommentTemplateEdit fuel (Some rs) perPage activeComment = Some NoResults"
    by (simp add: CommentTemplateEdit_def Let_def)
  have built: "roots (convertToTree (Some [])) = []" "table (convertToTree (Some [])) = Map.empty"
    "roots (convertToTree None) = []"
    by (simp_all add: convertToTree_def)
  have "cappedRoots ([] :: nat list) perPage = []"
    by (simp add: cappedRoots_def slice_def Let_def)
  then have empty: "CommentTemplateEdit fuel (Some []) perPage activeComment = Some NoResults"
    by (simp add: CommentTemplateEdit_def Let_def built)
  show ?thesis
    by (intro conjI absent capped empty built) simp
qed

theorem absent_and_empty_input_witness:
  "cappedRoots (roots (convertToTree (Some [\<lparr>id' = 1, parentId = 0\<rparr>]))) (Number (- 1)) = []
   \<and> CommentTemplateEdit 5 (Some [\<lparr>id' = 1, parentId = 0\<rparr>]) (Number (- 1)) None = Some NoResults
   \<and> CommentTemplateEdit 5 None (Number (- 1)) None = Some Spinner"
proof -
  have "roots (convertToTree (Some [\<lparr>id' = 1, parentId = 0\<rparr>])) = [1]"
    by (simp add: roots_convertToTree resolvable_def)
  then have h: "cappedRoots (roots (convertToTree (Some [\<lparr>id' = 1, parentId = 0\<rparr>]))) (Number (- 1)) = []"
    by (simp add: cappedRoots_def js_or_def slice_def)
  from absent_and_empty_input [of 5 "Number (- 1)" None "[\<lparr>id' = 1, parentId = 0\<rparr>]"] h
  show ?thesis by blast
qed

lemma those_map_Some:
  "(\<And>x. x \<in> set xs \<Longrightarrow> \<exists>y. f x = Some y) \<Longrightarrow> \<exists>ys. those (map f xs) = Some ys"
proof (induction xs)
  case Nil
  then show ?case by simp
next
  case (Cons x xs)
  from Cons.prems obtain y where y: "f x = Some y" by auto
  from Cons.IH Cons.prems obtain ys where "those (map f xs) = Some ys" by auto
  with y show ?case by simp
qed

lemma dom_attachRecords: "dom (table (attachRecords rs tree)) = dom (table tree)"
  by (induction rs arbitrary: tree) (simp_all add: dom_attach)

lemma dom_convertToTree: "dom (table (convertToTree (Some rs))) = set (map id' rs)"
  by (simp add: convertToTree_def dom_attachRecords dom_indexRecords)

lemma subtree_returns:
  fixes rank :: "nat \<Rightarrow> nat"
  assumes rank: "\<And>r. r \<in> set rs \<Longrightarrow> resolvable rs r \<Longrightarrow> rank (parentId r) < rank (id' r)"
    and bound: "\<And>r. r \<in> set rs \<Longrightarrow> rank (id' r) \<le> M"
  shows "k \<in> set (map id' rs) \<Longrightarrow> M - rank k < fuel \<Longrightarrow>
         \<exists>c. subtree fuel (table (convertToTree (Some rs))) k = Some c"
proof (induction fuel arbitrary: k)
  case 0
  then show ?case by simp
next
  case (Suc fuel)
  from Suc.prems(1) obtain node where node: "table (convertToTree (Some rs)) k = Some node"
    using dom_convertToTree [of rs] by blast
  then have kids: "childIds node = childrenOf (convertToTree (Some rs)) k"
    by (simp add: childrenOf_def)
  have "\<exists>c. subtree fuel (table (convertToTree (Some rs))) j = Some c"
    if "j \<in> set (childIds node)" for j
  proof -
    from that obtain r where r: "r \<in> set rs" "resolvable rs r" "parentId r = k" "id' r = j"
      unfolding kids childrenOf_convertToTree by auto
    have "rank k < rank j" using rank [OF r(1) r(2)] r(3) r(4) by simp
    moreover have "rank j \<le> M" using bound [OF r(1)] r(4) by simp
    ultimately have "M - rank j < fuel" using Suc.prems(2) by arith
    moreover have "j \<in> set (map id' rs)" using r(1) r(4) by auto
    ultimately show ?thesis by (intro Suc.IH)
  qed
  then obtain cs where "those (map (subtree fuel (table (convertToTree (Some rs)))) (childIds node)) = Some cs"
    using those_map_Some [of "childIds node" "subtree fuel (table (convertToTree (Some rs)))"] by blast
  with node show ?case by simp
qed

lemma set_slice: "set (slice xs a b) \<subseteq> set xs"
  unfolding slice_def Let_def by (meson set_take_subset set_drop_subset subset_trans)

text \<open>
  Enough fuel gives a rendering. When the resolvable parent links form no cycle (some rank
  decreases from every record to its resolvable parent), the block returns for every
  amount of fuel above the ranks: the walk from the capped roots ends.
\<close>

lemma CommentTemplateEdit_returns:
  fixes rank :: "nat \<Rightarrow> nat"
  assumes "\<forall>r \<in> set rs. resolvable rs r \<longrightarrow> rank (parentId r) < rank (id' r)"
    and "\<forall>r \<in> set rs. rank (id' r) < fuel"
  shows "\<exists>out. CommentTemplateEdit fuel (Some rs) perPage activeComment = Some out"
proof -
  let ?tree = "convertToTree (Some rs)"
  have "\<exists>c. subtree fuel (table ?tree) k = Some c" if "k \<in> set (cappedRoots (roots ?tree) perPage)" for k
  proof -
    from that have "k \<in> set (roots ?tree)"
      unfolding cappedRoots_def by (rule subsetD [OF set_slice])
    then have member: "k \<in> set (map id' rs)"
      by (auto simp: roots_convertToTree)
    have "fuel - 1 - rank k < fuel"
      using assms(2) member by auto
    with member show ?thesis
      using subtree_returns [of rs rank "fuel - 1" k fuel] assms by fastforce
  qed
  then obtain cs where
    "those (map (subtree fuel (table ?tree)) (cappedRoots (roots ?tree) perPage)) = Some cs"
    using those_map_Some [of "cappedRoots (roots ?tree) perPage" "subtree fuel (table ?tree)"] by blast
  then show ?thesis
    by (simp add: CommentTemplateEdit_def Let_def)
qed

text \<open>
  The block on the example of the specification, with no selection made and no
  \<open>perPage\<close>: three roots, the second record nested under the first.
\<close>

lemma CommentTemplateEdit_example:
  "CommentTemplateEdit 2 (Some [\<lparr>id' = 1, parentId = 0\<rparr>, \<lparr>id' = 2, parentId = 1\<rparr>,
       \<lparr>id' = 3, parentId = 0\<rparr>, \<lparr>id' = 4, parentId = 99\<rparr>]) Undefined None =
   Some (OrderedList [Li 1 InnerBlocks (Some [Li 2 InnerBlocks None]), Li 3 Preview None,
       Li 4 Preview None])"
  by (simp add: CommentTemplateEdit_def convertToTree_def attach_def cappedRoots_def js_or_def
      slice_def js_or_ref_def firstOf_def numeral_2_eq_2)

end
